theory Spec2Isabelle
  imports Complex_Main "HOL-Library.Sublist" "HOL-Library.Multiset"
    "HOL-Library.Char_ord" "HOL-Library.List_Lexorder"
begin

section \<open>Data model (src/types.ts, src/components/DataCleaningStep.tsx)\<close>

text \<open>
  A cell of a record is \<^verbatim>\<open>string | number\<close>. The type parameter \<open>'n\<close> stands for the
  JavaScript number values; the code under study only compares cells for equality
  and prints them, so the number type is left open and fixed only in concrete examples.
  Equality of cells is the comparison that \<^verbatim>\<open>Set\<close> and \<^verbatim>\<open>includes\<close> use. Strings are lists
  of characters standing for their code units.
\<close>

datatype 'n scalar = Str string | Num 'n

text \<open>
  An object with string keys is an association list in the order of \<^verbatim>\<open>Object.keys\<close>;
  reading a key that is absent yields \<^verbatim>\<open>undefined\<close>, here \<open>None\<close>.
\<close>

type_synonym 'v obj = "(string \<times> 'v) list"

definition obj_get :: "'v obj \<Rightarrow> string \<Rightarrow> 'v option" where
  "obj_get obj key = map_of obj key"

definition Object_keys :: "'v obj \<Rightarrow> string list" where
  "Object_keys obj = map fst obj"

type_synonym 'n DataRecord = "'n scalar obj"

record 'n RemovedRow =
  originalRow :: "'n DataRecord"
  reason :: string

text \<open>
  The result of the cleaning service. Its fields \<^verbatim>\<open>cleanedData\<close> and \<^verbatim>\<open>removedRows\<close> carry a
  prefix here, the plain names being those of the snapshot below.
\<close>

record 'n ChangeLog =
  summary :: string
  log_removedRows :: "'n RemovedRow list"

record 'n CleaningResults =
  results_cleanedData :: "'n DataRecord list"
  changeLog :: "'n ChangeLog"

text \<open>The anonymous snapshot type \<^verbatim>\<open>{ cleanedData, removedRows }\<close> of \<^verbatim>\<open>DataHistory\<close>.\<close>

record 'n CleaningState =
  cleanedData :: "'n DataRecord list"
  removedRows :: "'n RemovedRow list"

record 'n DataHistory =
  past :: "'n CleaningState list"
  present :: "'n CleaningState"
  future :: "'n CleaningState list"

section \<open>History engine (src/components/DataCleaningStep.tsx)\<close>

text \<open>\<^verbatim>\<open>useState\<close>'s initial value of \<^verbatim>\<open>dataHistory\<close>.\<close>

definition initialDataHistory :: "'n DataHistory" where
  "initialDataHistory = \<lparr>past = [], present = \<lparr>cleanedData = [], removedRows = []\<rparr>, future = []\<rparr>"

text \<open>
  \<^verbatim>\<open>handleCleanData\<close>, restricted to \<^verbatim>\<open>dataHistory\<close>. The awaited service call is the
  parameter \<open>outcome\<close>: \<open>Inl\<close> a thrown error, \<open>Inr\<close> the parsed results. An empty prompt
  returns before the call; a failure only sets the error message.
\<close>

definition handleCleanData ::
  "string \<Rightarrow> string + 'n CleaningResults \<Rightarrow> 'n DataHistory \<Rightarrow> 'n DataHistory" where
  "handleCleanData cleaningPrompt outcome dataHistory =
     (if cleaningPrompt = [] then dataHistory
      else case outcome of
        Inl e \<Rightarrow> dataHistory
      | Inr results \<Rightarrow>
          \<lparr>past = [],
           present = \<lparr>cleanedData = results_cleanedData results,
                      removedRows = log_removedRows (changeLog results)\<rparr>,
           future = []\<rparr>)"

text \<open>
  \<^verbatim>\<open>Array.prototype.filter\<close> with the two-argument callback \<^verbatim>\<open>(element, i)\<close>: the
  elements are visited in order, \<open>i\<close> counting from the given start.
\<close>

fun filter_index :: "('a \<Rightarrow> nat \<Rightarrow> bool) \<Rightarrow> nat \<Rightarrow> 'a list \<Rightarrow> 'a list" where
  "filter_index p i [] = []"
| "filter_index p i (x # xs) =
     (if p x i then x # filter_index p (Suc i) xs else filter_index p (Suc i) xs)"

definition handleRestoreRow :: "'n RemovedRow \<Rightarrow> int \<Rightarrow> 'n DataHistory \<Rightarrow> 'n DataHistory" where
  "handleRestoreRow rowToRestore index dataHistory =
     (let newPresent =
            \<lparr>cleanedData = cleanedData (present dataHistory) @ [originalRow rowToRestore],
             removedRows =
               filter_index (\<lambda>_ i. int i \<noteq> index) 0 (removedRows (present dataHistory))\<rparr>
      in \<lparr>past = past dataHistory @ [present dataHistory],
          present = newPresent,
          future = []\<rparr>)"

definition handleUndo :: "'n DataHistory \<Rightarrow> 'n DataHistory" where
  "handleUndo dataHistory =
     (if length (past dataHistory) = 0 then dataHistory
      else
        let previous = past dataHistory ! (length (past dataHistory) - 1);
            newPast = take (length (past dataHistory) - 1) (past dataHistory)
        in \<lparr>past = newPast,
            present = previous,
            future = present dataHistory # future dataHistory\<rparr>)"

definition handleRedo :: "'n DataHistory \<Rightarrow> 'n DataHistory" where
  "handleRedo dataHistory =
     (if length (future dataHistory) = 0 then dataHistory
      else
        let next = future dataHistory ! 0;
            newFuture = drop 1 (future dataHistory)
        in \<lparr>past = past dataHistory @ [present dataHistory],
            present = next,
            future = newFuture\<rparr>)"

text \<open>
  The clicks of a review session: restore (with the row and the index the button passes),
  undo, redo. \<open>run\<close> applies them in order.
\<close>

datatype 'n action = Restore "'n RemovedRow" int | Undo | Redo

fun step :: "'n DataHistory \<Rightarrow> 'n action \<Rightarrow> 'n DataHistory" where
  "step h (Restore r i) = handleRestoreRow r i h"
| "step h Undo = handleUndo h"
| "step h Redo = handleRedo h"

fun run :: "'n DataHistory \<Rightarrow> 'n action list \<Rightarrow> 'n DataHistory" where
  "run h [] = h"
| "run h (a # as) = run (step h a) as"

text \<open>Every restore of the sequence is given an index inside the \<^verbatim>\<open>removedRows\<close> shown at that moment.\<close>

fun indices_in_bounds :: "'n DataHistory \<Rightarrow> 'n action list \<Rightarrow> bool" where
  "indices_in_bounds h [] = True"
| "indices_in_bounds h (Restore r i # as) =
     (0 \<le> i \<and> i < int (length (removedRows (present h)))
      \<and> indices_in_bounds (handleRestoreRow r i h) as)"
| "indices_in_bounds h (a # as) = indices_in_bounds (step h a) as"

definition total_rows :: "'n CleaningState \<Rightarrow> nat" where
  "total_rows s = length (cleanedData s) + length (removedRows s)"

text \<open>All snapshots of a history (past, present and future) hold \<open>n\<close> rows in total.\<close>

definition snapshots_total :: "nat \<Rightarrow> 'n DataHistory \<Rightarrow> bool" where
  "snapshots_total n h =
     (total_rows (present h) = n
      \<and> list_all (\<lambda>s. total_rows s = n) (past h)
      \<and> list_all (\<lambda>s. total_rows s = n) (future h))"

subsection \<open>A review session on three rows\<close>

text \<open>
  Three rows, of which the cleaning run drops the second for its empty \<^verbatim>\<open>val\<close>.
  Numbers are integers here.
\<close>

definition row1 :: "int DataRecord" where
  "row1 = [(''id'', Num 1), (''val'', Str ''a'')]"

definition row2 :: "int DataRecord" where
  "row2 = [(''id'', Num 2), (''val'', Str [])]"

definition row3 :: "int DataRecord" where
  "row3 = [(''id'', Num 3), (''val'', Str ''b'')]"

definition removed2 :: "int RemovedRow" where
  "removed2 = \<lparr>originalRow = row2, reason = ''missing value in val''\<rparr>"

definition cleaning_results :: "int CleaningResults" where
  "cleaning_results =
     \<lparr>results_cleanedData = [row1, row3],
      changeLog = \<lparr>summary = ''Removed 1 row'', log_removedRows = [removed2]\<rparr>\<rparr>"

definition cleaned_history :: "int DataHistory" where
  "cleaned_history = handleCleanData ''clean'' (Inr cleaning_results) initialDataHistory"

definition undone_history :: "int DataHistory" where
  "undone_history = handleUndo (handleRestoreRow removed2 0 cleaned_history)"

section \<open>Filter engine and pagination (src/components/DashboardStep.tsx)\<close>

text \<open>\<^verbatim>\<open>Filters = Record<string, (string | number)[]>\<close>: the selected values per column.\<close>

type_synonym 'n Filters = "'n scalar list obj"

text \<open>
  The component's property \<^verbatim>\<open>cleanedData\<close> and its state \<^verbatim>\<open>filters\<close>, \<^verbatim>\<open>filteredData\<close> and
  \<^verbatim>\<open>page\<close>. The page index is a JavaScript number that only ever holds integers.
\<close>

record 'n DashboardStep =
  props_cleanedData :: "'n DataRecord list"
  filters :: "'n Filters"
  filteredData :: "'n DataRecord list"
  page :: int

text \<open>\<^verbatim>\<open>typeof\<close> of what reading a cell yields.\<close>

datatype js_type = T_string | T_number | T_undefined

fun typeof :: "'n scalar option \<Rightarrow> js_type" where
  "typeof None = T_undefined"
| "typeof (Some (Str s)) = T_string"
| "typeof (Some (Num n)) = T_number"

text \<open>
  \<^verbatim>\<open>new Set(array)\<close>: the elements are added one by one, an element already present is
  not added again, and iteration follows the order of first insertion. \<^verbatim>\<open>size\<close> is the
  length of that list.
\<close>

definition Set_add :: "'a list \<Rightarrow> 'a \<Rightarrow> 'a list" where
  "Set_add s x = (if x \<in> set s then s else s @ [x])"

definition new_Set :: "'a list \<Rightarrow> 'a list" where
  "new_Set xs = foldl Set_add [] xs"

text \<open>\<^verbatim>\<open>cleanedData.map(row => row[header])\<close>\<close>

definition column_values :: "'n DataRecord list \<Rightarrow> string \<Rightarrow> 'n scalar option list" where
  "column_values cleaned header = map (\<lambda>row. obj_get row header) cleaned"

definition categoricalColumns :: "'n DataRecord list \<Rightarrow> string list" where
  "categoricalColumns cleaned =
     (if length cleaned = 0 then []
      else
        let headers = Object_keys (cleaned ! 0)
        in filter (\<lambda>header.
             if typeof (obj_get (cleaned ! 0) header) \<noteq> T_string then False
             else
               let uniqueValues = new_Set (column_values cleaned header)
               in length uniqueValues > 1 \<and> length uniqueValues \<le> 50) headers)"


fun defined_values :: "'a option list \<Rightarrow> 'a list" where
  "defined_values [] = []"
| "defined_values (None # xs) = defined_values xs"
| "defined_values (Some v # xs) = v # defined_values xs"



text \<open>
  The keys of \<^verbatim>\<open>filters\<close> with a non-empty selection. A key of \<^verbatim>\<open>Object.keys(filters)\<close>
  always reads a selection, so the \<open>None\<close> branch is never taken.
\<close>

definition activeFilters :: "'n Filters \<Rightarrow> string list" where
  "activeFilters fs =
     filter (\<lambda>key. case obj_get fs key of Some selected \<Rightarrow> length selected > 0 | None \<Rightarrow> False)
       (Object_keys fs)"

definition Array_includes :: "'a list \<Rightarrow> 'a \<Rightarrow> bool" where
  "Array_includes xs x = (x \<in> set xs)"

text \<open>
  The effect that recomputes \<^verbatim>\<open>filteredData\<close> when \<^verbatim>\<open>filters\<close> or \<^verbatim>\<open>cleanedData\<close> change.
  A selection holds strings and numbers; the cell it is compared with may be \<^verbatim>\<open>undefined\<close>.
\<close>

definition filterRecomputation :: "'n DashboardStep \<Rightarrow> 'n DashboardStep" where
  "filterRecomputation s =
     (if length (activeFilters (filters s)) = 0
      then s\<lparr>filteredData := props_cleanedData s, page := 0\<rparr>
      else
        let newFilteredData =
              filter (\<lambda>row.
                  list_all (\<lambda>key.
                      case obj_get (filters s) key of
                        Some selected \<Rightarrow> Array_includes (map Some selected) (obj_get row key)
                      | None \<Rightarrow> False)
                    (activeFilters (filters s)))
                (props_cleanedData s)
        in s\<lparr>filteredData := newFilteredData, page := 0\<rparr>)"

text \<open>
  The filtered view in the words of the specification: a row is kept when, for every
  column with a non-empty selection, the row's cell is among the selected values.
\<close>

definition row_selected :: "'n Filters \<Rightarrow> 'n DataRecord \<Rightarrow> bool" where
  "row_selected fs row =
     (\<forall>c selected. obj_get fs c = Some selected \<and> selected \<noteq> [] \<longrightarrow>
        obj_get row c \<in> Some ` set selected)"

subsection \<open>Pagination\<close>

definition rowsPerPage :: int where
  "rowsPerPage = 10"

text \<open>
  \<^verbatim>\<open>Array.prototype.slice(start, end)\<close> on integers: a negative bound counts from the
  end, and both are clamped to the array.
\<close>

definition Array_slice :: "'a list \<Rightarrow> int \<Rightarrow> int \<Rightarrow> 'a list" where
  "Array_slice xs start stop =
     (let len = int (length xs);
          k = (if start < 0 then max (len + start) 0 else min start len);
          final = (if stop < 0 then max (len + stop) 0 else min stop len)
      in take (nat (final - k)) (drop (nat k) xs))"

definition paginatedData :: "'a list \<Rightarrow> int \<Rightarrow> 'a list" where
  "paginatedData fd pg = Array_slice fd (pg * rowsPerPage) ((pg + 1) * rowsPerPage)"

text \<open>
  \<^verbatim>\<open>Math.ceil(filteredData.length / rowsPerPage)\<close>. For every array length the quotient
  computed in double precision has the ceiling of the exact quotient.
\<close>

definition pageCount :: "'a list \<Rightarrow> int" where
  "pageCount fd = \<lceil>real (length fd) / real_of_int rowsPerPage\<rceil>"

text \<open>The updaters passed to \<^verbatim>\<open>setPage\<close> by the Previous and Next buttons.\<close>

definition previousPage :: "int \<Rightarrow> int" where
  "previousPage p = max 0 (p - 1)"

definition nextPage :: "int \<Rightarrow> int \<Rightarrow> int" where
  "nextPage pc p = min (pc - 1) (p + 1)"

subsection \<open>Printing integers\<close>




subsection \<open>Orders on cells\<close>





subsection \<open>Example datasets\<close>

text \<open>Datasets in which the last record lacks the column \<^verbatim>\<open>c\<close>.\<close>

definition lacking_data :: "int DataRecord list" where
  "lacking_data = [[(''c'', Str ''a'')], []]"

definition lacking_sorted_data :: "int DataRecord list" where
  "lacking_sorted_data = [[(''c'', Str ''b'')], [(''c'', Str ''a'')], []]"

definition sales_data :: "int DataRecord list" where
  "sales_data =
     [[(''country'', Str ''US''), (''year'', Str ''2023''), (''units'', Num 5)],
      [(''country'', Str ''DE''), (''year'', Str ''2023''), (''units'', Num 7)],
      [(''country'', Str ''US''), (''year'', Str ''2022''), (''units'', Num 5)],
      [(''country'', Str ''US''), (''year'', Str ''2023''), (''units'', Num 5)]]"

definition sales_view :: "int Filters \<Rightarrow> int DashboardStep" where
  "sales_view fs =
     \<lparr>props_cleanedData = sales_data, filters = fs, filteredData = sales_data, page = 2\<rparr>"

section \<open>Properties of the history engine\<close>

subsection \<open>Filtering by index\<close>

lemma filter_index_all: "(\<And>x j. k \<le> j \<Longrightarrow> p x j) \<Longrightarrow> filter_index p k xs = xs"
  by (induction xs arbitrary: k) auto

lemma filter_index_neq_from:
  "filter_index (\<lambda>_ j. int j \<noteq> int (k + m)) k xs = take m xs @ drop (Suc m) xs"
proof (induction xs arbitrary: k m)
  case Nil
  then show ?case by simp
next
  case (Cons x xs)
  show ?case
  proof (cases m)
    case 0
    have "filter_index (\<lambda>_ j. int j \<noteq> int k) (Suc k) xs = xs"
      by (rule filter_index_all) simp
    with 0 show ?thesis by simp
  next
    case (Suc m')
    have "filter_index (\<lambda>_ j. int j \<noteq> int (Suc k + m')) (Suc k) xs = take m' xs @ drop (Suc m') xs"
      by (rule Cons.IH)
    with Suc show ?thesis by simp
  qed
qed

lemma filter_index_remove_nth:
  "0 \<le> i \<Longrightarrow> filter_index (\<lambda>_ j. int j \<noteq> i) 0 xs = take (nat i) xs @ drop (Suc (nat i)) xs"
  using filter_index_neq_from [of 0 "nat i" xs] by simp

lemma filter_index_negative:
  assumes "i < 0"
  shows "filter_index (\<lambda>_ j. int j \<noteq> i) 0 xs = xs"
proof (rule filter_index_all)
  fix j :: nat
  show "int j \<noteq> i" using assms by simp
qed

lemma filter_index_out_of_range:
  "i < 0 \<or> int (length xs) \<le> i \<Longrightarrow> filter_index (\<lambda>_ j. int j \<noteq> i) 0 xs = xs"
proof (cases "i < 0")
  case True
  then show ?thesis by (rule filter_index_negative)
next
  case False
  assume "i < 0 \<or> int (length xs) \<le> i"
  with False have "0 \<le> i" "length xs \<le> nat i" by simp_all
  then show ?thesis by (simp add: filter_index_remove_nth)
qed

subsection \<open>Undo and redo\<close>

lemma handleUndo_empty: "past h = [] \<Longrightarrow> handleUndo h = h"
  by (simp add: handleUndo_def)

lemma handleRedo_empty: "future h = [] \<Longrightarrow> handleRedo h = h"
  by (simp add: handleRedo_def)

lemma take_nth_last: "xs \<noteq> [] \<Longrightarrow> take (length xs - Suc 0) xs @ [xs ! (length xs - Suc 0)] = xs"
  by (metis One_nat_def append_butlast_last_id butlast_conv_take last_conv_nth)

lemma handleRedo_handleUndo: "past h \<noteq> [] \<Longrightarrow> handleRedo (handleUndo h) = h"
  by (simp add: handleUndo_def handleRedo_def Let_def take_nth_last)

lemma handleUndo_handleRedo: "future h \<noteq> [] \<Longrightarrow> handleUndo (handleRedo h) = h"
  by (cases "future h") (simp_all add: handleUndo_def handleRedo_def Let_def)

lemma future_handleRestoreRow: "future (handleRestoreRow r i h) = []"
  by (simp add: handleRestoreRow_def Let_def)

lemma past_handleRestoreRow: "past (handleRestoreRow r i h) = past h @ [present h]"
  by (simp add: handleRestoreRow_def Let_def)

lemma cleanedData_handleRestoreRow:
  "cleanedData (present (handleRestoreRow r i h)) = cleanedData (present h) @ [originalRow r]"
  by (simp add: handleRestoreRow_def Let_def)

lemma removedRows_handleRestoreRow:
  "removedRows (present (handleRestoreRow r i h)) =
     filter_index (\<lambda>_ j. int j \<noteq> i) 0 (removedRows (present h))"
  by (simp add: handleRestoreRow_def Let_def)

text \<open>
  C1. Restoring a removed row yields a present whose \<^verbatim>\<open>cleanedData\<close> is the old one with
  the restored row's \<^verbatim>\<open>originalRow\<close> appended at the end, and whose \<^verbatim>\<open>removedRows\<close> is the
  old one without the entry at the given index (for an index within bounds, which is one
  entry fewer). The old present is pushed onto \<^verbatim>\<open>past\<close> and \<^verbatim>\<open>future\<close> is cleared; hence
  after any number \<open>n\<close> of undos a fresh restore leaves \<^verbatim>\<open>future\<close> empty and a
  following redo changes nothing.
\<close>

theorem handleRestoreRow_effect:
  "cleanedData (present (handleRestoreRow r i h)) = cleanedData (present h) @ [originalRow r]
   \<and> (0 \<le> i \<and> i < int (length (removedRows (present h))) \<longrightarrow>
        removedRows (present (handleRestoreRow r i h)) =
          take (nat i) (removedRows (present h)) @ drop (Suc (nat i)) (removedRows (present h))
        \<and> Suc (length (removedRows (present (handleRestoreRow r i h)))) =
            length (removedRows (present h)))
   \<and> past (handleRestoreRow r i h) = past h @ [present h]
   \<and> future (handleRestoreRow r i h) = []
   \<and> future (handleRestoreRow r i ((handleUndo ^^ n) h)) = []
   \<and> handleRedo (handleRestoreRow r i ((handleUndo ^^ n) h)) =
       handleRestoreRow r i ((handleUndo ^^ n) h)"
proof -
  let ?u = "(handleUndo ^^ n) h"
  have in_range: "0 \<le> i \<and> i < int (length (removedRows (present h))) \<longrightarrow>
        removedRows (present (handleRestoreRow r i h)) =
          take (nat i) (removedRows (present h)) @ drop (Suc (nat i)) (removedRows (present h))
        \<and> Suc (length (removedRows (present (handleRestoreRow r i h)))) =
            length (removedRows (present h))"
  proof
    assume "0 \<le> i \<and> i < int (length (removedRows (present h)))"
    then have "0 \<le> i" and "nat i < length (removedRows (present h))"
      by (simp_all add: nat_less_iff)
    then show "removedRows (present (handleRestoreRow r i h)) =
          take (nat i) (removedRows (present h)) @ drop (Suc (nat i)) (removedRows (present h))
        \<and> Suc (length (removedRows (present (handleRestoreRow r i h)))) =
            length (removedRows (present h))"
      by (simp add: removedRows_handleRestoreRow filter_index_remove_nth)
  qed
  have redo: "handleRedo (handleRestoreRow r i ?u) = handleRestoreRow r i ?u"
    by (rule handleRedo_empty) (rule future_handleRestoreRow)
  show ?thesis
    by (intro conjI)
      (rule cleanedData_handleRestoreRow in_range past_handleRestoreRow
        future_handleRestoreRow redo)+
qed

theorem handleRestoreRow_effect_witness:
  "cleanedData (present (handleRestoreRow removed2 0 cleaned_history)) = [row1, row3, row2]
   \<and> removedRows (present (handleRestoreRow removed2 0 cleaned_history)) = []
   \<and> past (handleRestoreRow removed2 0 cleaned_history) = [present cleaned_history]
   \<and> future (handleRestoreRow removed2 0
        ((handleUndo ^^ 1) (handleRestoreRow removed2 0 cleaned_history))) = []
   \<and> handleRedo (handleRestoreRow removed2 0
        ((handleUndo ^^ 1) (handleRestoreRow removed2 0 cleaned_history))) =
      handleRestoreRow removed2 0 ((handleUndo ^^ 1) (handleRestoreRow removed2 0 cleaned_history))"
proof -
  have bounds: "0 \<le> (0::int) \<and> 0 < int (length (removedRows (present cleaned_history)))"
    by (simp add: cleaned_history_def handleCleanData_def cleaning_results_def)
  have shape: "cleanedData (present cleaned_history) = [row1, row3]"
    "removedRows (present cleaned_history) = [removed2]" "past cleaned_history = []"
    "originalRow removed2 = row2"
    by (simp_all add: cleaned_history_def handleCleanData_def cleaning_results_def removed2_def)
  from handleRestoreRow_effect [of removed2 0 cleaned_history 0]
    handleRestoreRow_effect [of removed2 0 "handleRestoreRow removed2 0 cleaned_history" 1] bounds
  show ?thesis
    by (simp add: shape)
qed

subsection \<open>Undo after redo, empty stacks and indices out of range\<close>

lemma cleaned_history_eq:
  "cleaned_history =
     \<lparr>past = [], present = \<lparr>cleanedData = [row1, row3], removedRows = [removed2]\<rparr>, future = []\<rparr>"
  by (simp add: cleaned_history_def handleCleanData_def cleaning_results_def)

lemma undone_history_eq:
  "undone_history =
     \<lparr>past = [], present = \<lparr>cleanedData = [row1, row3], removedRows = [removed2]\<rparr>,
      future = [\<lparr>cleanedData = [row1, row3, row2], removedRows = []\<rparr>]\<rparr>"
  by (simp add: undone_history_def cleaned_history_eq handleRestoreRow_def handleUndo_def
      removed2_def)

text \<open>
  C2, as amended. Undo followed by redo gives back the whole history (the present with its
  \<^verbatim>\<open>cleanedData\<close> and \<^verbatim>\<open>removedRows\<close>, and \<^verbatim>\<open>past\<close> and \<^verbatim>\<open>future\<close>) whenever \<^verbatim>\<open>past\<close> is
  non-empty or \<^verbatim>\<open>future\<close> is empty. With an empty \<^verbatim>\<open>past\<close> and a non-empty \<^verbatim>\<open>future\<close> the
  undo does nothing and the redo moves on to the first undone state: that is the state
  reached by one restore and one undo, where the present after undo and redo differs.
\<close>

theorem undo_then_redo_identity:
  "past h \<noteq> [] \<or> future h = [] \<Longrightarrow> handleRedo (handleUndo h) = h"
proof (cases "past h = []")
  case True
  assume "past h \<noteq> [] \<or> future h = []"
  with True have "future h = []" by simp
  with True show ?thesis by (simp add: handleUndo_empty handleRedo_empty)
next
  case False
  then show ?thesis by (rule handleRedo_handleUndo)
qed

theorem undo_then_redo_identity_witness:
  "handleRedo (handleUndo (handleRestoreRow removed2 0 cleaned_history)) =
     handleRestoreRow removed2 0 cleaned_history
   \<and> past (handleRestoreRow removed2 0 cleaned_history) = [present cleaned_history]"
proof -
  have p: "past (handleRestoreRow removed2 0 cleaned_history) = [present cleaned_history]"
    by (simp add: past_handleRestoreRow cleaned_history_eq)
  then have "past (handleRestoreRow removed2 0 cleaned_history) \<noteq> []
      \<or> future (handleRestoreRow removed2 0 cleaned_history) = []"
    by simp
  from undo_then_redo_identity [OF this] p show ?thesis by simp
qed

theorem undo_redo_counterexample:
  "present (handleRedo (handleUndo undone_history)) \<noteq> present undone_history"
  by (simp add: undone_history_eq handleUndo_def handleRedo_def)

text \<open>
  C9. Undo on an empty \<^verbatim>\<open>past\<close> and redo on an empty \<^verbatim>\<open>future\<close> return the history
  unchanged, for every history; the handlers are total functions and have no error branch.
\<close>

theorem undo_redo_empty_noop:
  "(past h = [] \<longrightarrow> handleUndo h = h) \<and> (future h = [] \<longrightarrow> handleRedo h = h)"
  by (simp add: handleUndo_empty handleRedo_empty)

theorem undo_redo_empty_noop_witness:
  "past cleaned_history = [] \<and> future cleaned_history = []
   \<and> handleUndo cleaned_history = cleaned_history \<and> handleRedo cleaned_history = cleaned_history"
proof -
  have e: "past cleaned_history = []" "future cleaned_history = []"
    by (simp_all add: cleaned_history_eq)
  with undo_redo_empty_noop [of cleaned_history] show ?thesis by simp
qed

text \<open>
  C4, as amended. A restore with an index outside \<^verbatim>\<open>removedRows\<close> (negative, or at least
  its length) raises nothing and leaves \<^verbatim>\<open>removedRows\<close> as it is, but it is not a no-op:
  the given row's \<^verbatim>\<open>originalRow\<close> is appended to \<^verbatim>\<open>cleanedData\<close>, the old present is pushed
  onto \<^verbatim>\<open>past\<close> and \<^verbatim>\<open>future\<close> is cleared. The counterexample restores at index 1 of a
  one-element \<^verbatim>\<open>removedRows\<close>.
\<close>

theorem restore_out_of_range:
  "i < 0 \<or> int (length (removedRows (present h))) \<le> i \<Longrightarrow>
     removedRows (present (handleRestoreRow r i h)) = removedRows (present h)
     \<and> cleanedData (present (handleRestoreRow r i h)) = cleanedData (present h) @ [originalRow r]
     \<and> past (handleRestoreRow r i h) = past h @ [present h]
     \<and> future (handleRestoreRow r i h) = []"
  by (simp add: removedRows_handleRestoreRow filter_index_out_of_range
      cleanedData_handleRestoreRow past_handleRestoreRow future_handleRestoreRow)

theorem restore_out_of_range_witness:
  "removedRows (present (handleRestoreRow removed2 (-1) cleaned_history)) = [removed2]
   \<and> cleanedData (present (handleRestoreRow removed2 (-1) cleaned_history)) = [row1, row3, row2]
   \<and> past (handleRestoreRow removed2 (-1) cleaned_history) = [present cleaned_history]
   \<and> future (handleRestoreRow removed2 (-1) cleaned_history) = []"
proof -
  have "(-1::int) < 0 \<or> int (length (removedRows (present cleaned_history))) \<le> -1"
    by simp
  from restore_out_of_range [OF this, of removed2] show ?thesis
    by (simp add: cleaned_history_eq removed2_def)
qed

theorem restore_out_of_range_counterexample:
  "int (length (removedRows (present cleaned_history))) \<le> 1
   \<and> cleanedData (present (handleRestoreRow removed2 1 cleaned_history))
       \<noteq> cleanedData (present cleaned_history)
   \<and> past (handleRestoreRow removed2 1 cleaned_history) \<noteq> past cleaned_history"
  by (simp add: cleaned_history_eq handleRestoreRow_def)

subsection \<open>Conservation of rows\<close>

lemma total_rows_restore:
  assumes "0 \<le> i" "i < int (length (removedRows (present h)))"
  shows "total_rows (present (handleRestoreRow r i h)) = total_rows (present h)"
proof -
  from assms have "nat i < length (removedRows (present h))" by (simp add: nat_less_iff)
  with assms(1) show ?thesis
    by (simp add: total_rows_def cleanedData_handleRestoreRow removedRows_handleRestoreRow
        filter_index_remove_nth)
qed

lemma snapshots_total_restore:
  assumes "snapshots_total n h" "0 \<le> i" "i < int (length (removedRows (present h)))"
  shows "snapshots_total n (handleRestoreRow r i h)"
  using assms total_rows_restore [OF assms(2,3), of r]
  by (simp add: snapshots_total_def past_handleRestoreRow future_handleRestoreRow)

lemma snapshots_total_undo:
  assumes "snapshots_total n h"
  shows "snapshots_total n (handleUndo h)"
proof (cases "past h = []")
  case True
  with assms show ?thesis by (simp add: handleUndo_empty)
next
  case False
  then have "past h ! (length (past h) - 1) \<in> set (past h)" by simp
  moreover have "set (take (length (past h) - 1) (past h)) \<subseteq> set (past h)"
    by (rule set_take_subset)
  ultimately show ?thesis
    using assms False
    by (auto simp: snapshots_total_def handleUndo_def Let_def list_all_iff)
qed

lemma snapshots_total_redo:
  assumes "snapshots_total n h"
  shows "snapshots_total n (handleRedo h)"
proof (cases "future h")
  case Nil
  with assms show ?thesis by (simp add: handleRedo_empty)
next
  case (Cons s ss)
  with assms show ?thesis
    by (simp add: snapshots_total_def handleRedo_def Let_def)
qed

lemma snapshots_total_run:
  "snapshots_total n h \<Longrightarrow> indices_in_bounds h acts \<Longrightarrow> snapshots_total n (run h acts)"
proof (induction acts arbitrary: h)
  case Nil
  then show ?case by simp
next
  case (Cons a acts)
  show ?case
  proof (cases a)
    case (Restore r i)
    with Cons.prems have "snapshots_total n (handleRestoreRow r i h)"
      and "indices_in_bounds (handleRestoreRow r i h) acts"
      by (simp_all add: snapshots_total_restore)
    with Restore show ?thesis by (simp add: Cons.IH)
  next
    case Undo
    with Cons.prems show ?thesis by (simp add: Cons.IH snapshots_total_undo)
  next
    case Redo
    with Cons.prems show ?thesis by (simp add: Cons.IH snapshots_total_redo)
  qed
qed

text \<open>
  C3. Conservation law: from the history set up by a successful cleaning run, after any
  sequence of restores (each with an index within the bounds of the \<^verbatim>\<open>removedRows\<close> current
  at that moment), undos and redos, the lengths of the present's \<^verbatim>\<open>cleanedData\<close> and
  \<^verbatim>\<open>removedRows\<close> add up to the number of rows the cleaning run returned.
\<close>

theorem conservation_law:
  assumes "cleaningPrompt \<noteq> []"
    and "indices_in_bounds (handleCleanData cleaningPrompt (Inr results) h0) acts"
  shows "length (cleanedData (present (run (handleCleanData cleaningPrompt (Inr results) h0) acts)))
         + length (removedRows (present (run (handleCleanData cleaningPrompt (Inr results) h0) acts)))
       = length (results_cleanedData results) + length (log_removedRows (changeLog results))"
proof -
  let ?n = "length (results_cleanedData results) + length (log_removedRows (changeLog results))"
  let ?h = "handleCleanData cleaningPrompt (Inr results) h0"
  from assms(1) have "snapshots_total ?n ?h"
    by (simp add: snapshots_total_def handleCleanData_def total_rows_def)
  from snapshots_total_run [OF this assms(2)] show ?thesis
    by (simp add: snapshots_total_def total_rows_def)
qed

theorem conservation_law_witness:
  "length (cleanedData (present (run cleaned_history [Restore removed2 0, Undo, Redo, Undo, Undo])))
   + length (removedRows (present (run cleaned_history [Restore removed2 0, Undo, Redo, Undo, Undo])))
   = 3"
proof -
  have ne: "''clean'' \<noteq> []" by simp
  have ok: "indices_in_bounds (handleCleanData ''clean'' (Inr cleaning_results) initialDataHistory)
      [Restore removed2 0, Undo, Redo, Undo, Undo]"
    by (simp add: handleCleanData_def cleaning_results_def)
  from conservation_law [OF ne ok] show ?thesis
    by (simp add: cleaned_history_def cleaning_results_def)
qed

section \<open>Properties of the filter engine\<close>

subsection \<open>The filtered view\<close>

lemma obj_get_keys: "obj_get fs key = Some v \<Longrightarrow> key \<in> set (Object_keys fs)"
  unfolding obj_get_def Object_keys_def
  by (metis map_of_SomeD image_eqI fst_conv set_map)

lemma activeFilters_iff:
  "key \<in> set (activeFilters fs) \<longleftrightarrow> (\<exists>selected. obj_get fs key = Some selected \<and> selected \<noteq> [])"
  by (auto simp: activeFilters_def obj_get_keys split: option.splits)

lemma every_active_iff:
  "list_all (\<lambda>key. case obj_get fs key of
        Some selected \<Rightarrow> Array_includes (map Some selected) (obj_get row key)
      | None \<Rightarrow> False) (activeFilters fs)
   \<longleftrightarrow> row_selected fs row"
proof
  assume every: "list_all (\<lambda>key. case obj_get fs key of
        Some selected \<Rightarrow> Array_includes (map Some selected) (obj_get row key)
      | None \<Rightarrow> False) (activeFilters fs)"
  show "row_selected fs row"
    unfolding row_selected_def
  proof (intro allI impI)
    fix c selected
    assume sel: "obj_get fs c = Some selected \<and> selected \<noteq> []"
    then have "c \<in> set (activeFilters fs)" by (auto simp: activeFilters_iff)
    with every sel show "obj_get row c \<in> Some ` set selected"
      by (auto simp: list_all_iff Array_includes_def)
  qed
next
  assume sel: "row_selected fs row"
  show "list_all (\<lambda>key. case obj_get fs key of
        Some selected \<Rightarrow> Array_includes (map Some selected) (obj_get row key)
      | None \<Rightarrow> False) (activeFilters fs)"
    unfolding list_all_iff
  proof
    fix key
    assume "key \<in> set (activeFilters fs)"
    then obtain selected where "obj_get fs key = Some selected" "selected \<noteq> []"
      by (auto simp: activeFilters_iff)
    with sel show "case obj_get fs key of
        Some selected \<Rightarrow> Array_includes (map Some selected) (obj_get row key)
      | None \<Rightarrow> False"
      by (auto simp: row_selected_def Array_includes_def)
  qed
qed

lemma no_activeFilters_selected:
  assumes "activeFilters fs = []"
  shows "row_selected fs row"
proof -
  have "\<not> (\<exists>selected. obj_get fs c = Some selected \<and> selected \<noteq> [])" for c
    using assms activeFilters_iff [of c fs] by simp
  then show ?thesis by (auto simp: row_selected_def)
qed

lemma filteredData_filterRecomputation:
  "filteredData (filterRecomputation s) = filter (row_selected (filters s)) (props_cleanedData s)"
proof (cases "activeFilters (filters s) = []")
  case True
  then have "filter (row_selected (filters s)) (props_cleanedData s) = props_cleanedData s"
    by (simp add: no_activeFilters_selected)
  with True show ?thesis by (simp add: filterRecomputation_def)
next
  case False
  then show ?thesis
    by (simp add: filterRecomputation_def Let_def every_active_iff)
qed

lemma all_empty_selected:
  assumes "\<forall>c selected. obj_get fs c = Some selected \<longrightarrow> selected = []"
  shows "row_selected fs row"
  using assms by (auto simp: row_selected_def)

lemma count_list_filter:
  "count_list (filter P xs) x = (if P x then count_list xs x else 0)"
  by (induction xs) auto

lemma props_filterRecomputation:
  "props_cleanedData (filterRecomputation s) = props_cleanedData s"
  by (simp add: filterRecomputation_def Let_def)

lemma row_selected_code:
  "row_selected fs row \<longleftrightarrow>
     list_all (\<lambda>key. case obj_get fs key of
        Some selected \<Rightarrow> Array_includes (map Some selected) (obj_get row key)
      | None \<Rightarrow> False) (activeFilters fs)"
  by (simp add: every_active_iff)

text \<open>
  C5. The filtered view is the cleaned dataset filtered, in order, by \<open>row_selected\<close>: the
  rows whose cell \<^verbatim>\<open>row[c]\<close> is among the selected values for every column \<open>c\<close> with a
  non-empty selection. A column that is absent from \<^verbatim>\<open>filters\<close> or has an empty selection
  is not constrained, and when every selection is empty the view is the dataset itself.
\<close>

theorem filtered_view:
  "filteredData (filterRecomputation s) = filter (row_selected (filters s)) (props_cleanedData s)
   \<and> ((\<forall>c selected. obj_get (filters s) c = Some selected \<longrightarrow> selected = []) \<longrightarrow>
        filteredData (filterRecomputation s) = props_cleanedData s)"
  by (simp add: filteredData_filterRecomputation all_empty_selected)

theorem filtered_view_witness:
  "filteredData (filterRecomputation
      (sales_view [(''country'', [Str ''US'']), (''units'', []), (''year'', [Str ''2023''])])) =
     [[(''country'', Str ''US''), (''year'', Str ''2023''), (''units'', Num 5)],
      [(''country'', Str ''US''), (''year'', Str ''2023''), (''units'', Num 5)]]
   \<and> filteredData (filterRecomputation (sales_view [(''country'', []), (''year'', [])])) = sales_data"
proof -
  have empty: "\<forall>c selected. obj_get (filters (sales_view [(''country'', []), (''year'', [])])) c
      = Some selected \<longrightarrow> selected = []"
    by (simp add: sales_view_def obj_get_def)
  have "filter (row_selected (filters
      (sales_view [(''country'', [Str ''US'']), (''units'', []), (''year'', [Str ''2023''])])))
      (props_cleanedData
      (sales_view [(''country'', [Str ''US'']), (''units'', []), (''year'', [Str ''2023''])])) = 
       [[(''country'', Str ''US''), (''year'', Str ''2023''), (''units'', Num 5)],
      [(''country'', Str ''US''), (''year'', Str ''2023''), (''units'', Num 5)]]"
    by (simp add: row_selected_code sales_view_def sales_data_def activeFilters_def
        Object_keys_def obj_get_def Array_includes_def)
  moreover note filtered_view [of "sales_view
      [(''country'', [Str ''US'']), (''units'', []), (''year'', [Str ''2023''])]", THEN conjunct1]
  moreover have "filteredData (filterRecomputation (sales_view [(''country'', []), (''year'', [])]))
      = props_cleanedData (sales_view [(''country'', []), (''year'', [])])"
    using filtered_view [of "sales_view [(''country'', []), (''year'', [])]", THEN conjunct2] empty
    by (rule mp)
  ultimately show ?thesis
    by (simp add: sales_view_def)
qed

text \<open>
  C10. For every dataset and every selection the filtered view is a subsequence of the
  dataset (the kept rows in their relative order); a row occurs in it as often as in the
  dataset when it is selected, and not at all otherwise; and the recomputation leaves the
  property \<^verbatim>\<open>cleanedData\<close> as it is.
\<close>

theorem filtered_view_subsequence:
  "subseq (filteredData (filterRecomputation s)) (props_cleanedData s)
   \<and> count_list (filteredData (filterRecomputation s)) row =
       (if row_selected (filters s) row then count_list (props_cleanedData s) row else 0)
   \<and> (row \<in> set (filteredData (filterRecomputation s)) \<longrightarrow>
        count_list (filteredData (filterRecomputation s)) row = count_list (props_cleanedData s) row)
   \<and> props_cleanedData (filterRecomputation s) = props_cleanedData s"
  by (simp add: filteredData_filterRecomputation count_list_filter props_filterRecomputation)

theorem filtered_view_subsequence_witness:
  "subseq (filteredData (filterRecomputation (sales_view [(''country'', [Str ''DE''])]))) sales_data
   \<and> [(''country'', Str ''US''), (''year'', Str ''2023''), (''units'', Num 5)]
       \<in> set (filteredData (filterRecomputation (sales_view [(''country'', [Str ''US''])])))
   \<and> count_list (filteredData (filterRecomputation (sales_view [(''country'', [Str ''US''])])))
        [(''country'', Str ''US''), (''year'', Str ''2023''), (''units'', Num 5)] = 2
   \<and> count_list (filteredData (filterRecomputation (sales_view [(''country'', [Str ''US''])])))
        [(''country'', Str ''DE''), (''year'', Str ''2023''), (''units'', Num 7)] = 0
   \<and> props_cleanedData (filterRecomputation (sales_view [(''country'', [Str ''US''])])) = sales_data"
proof -
  let ?us = "[(''country'', Str ''US''), (''year'', Str ''2023''), (''units'', Num (5::int))]"
  let ?de = "[(''country'', Str ''DE''), (''year'', Str ''2023''), (''units'', Num (7::int))]"
  have kept: "?us \<in> set (filteredData (filterRecomputation (sales_view [(''country'', [Str ''US''])])))"
    by (simp add: filterRecomputation_def sales_view_def sales_data_def activeFilters_def
        Object_keys_def obj_get_def Array_includes_def)
  have sel: "row_selected (filters (sales_view [(''country'', [Str ''US''])])) ?us"
    "\<not> row_selected (filters (sales_view [(''country'', [Str ''US''])])) ?de"
    by (simp_all add: row_selected_code sales_view_def activeFilters_def
        Object_keys_def obj_get_def Array_includes_def)
  from filtered_view_subsequence [of "sales_view [(''country'', [Str ''DE''])]"]
    filtered_view_subsequence [of "sales_view [(''country'', [Str ''US''])]" ?us]
    filtered_view_subsequence [of "sales_view [(''country'', [Str ''US''])]" ?de] kept sel
  show ?thesis
    by (simp add: sales_view_def sales_data_def)
qed

subsection \<open>Filterable columns\<close>

lemma set_foldl_Set_add: "set (foldl Set_add acc xs) = set acc \<union> set xs"
  by (induction xs arbitrary: acc) (auto simp: Set_add_def)

lemma distinct_foldl_Set_add: "distinct acc \<Longrightarrow> distinct (foldl Set_add acc xs)"
  by (induction xs arbitrary: acc) (auto simp: Set_add_def)

lemma set_new_Set: "set (new_Set xs) = set xs"
  by (simp add: new_Set_def set_foldl_Set_add)

lemma distinct_new_Set: "distinct (new_Set xs)"
  by (simp add: new_Set_def distinct_foldl_Set_add)

lemma length_new_Set: "length (new_Set xs) = card (set xs)"
  using distinct_card [OF distinct_new_Set, of xs] by (simp add: set_new_Set)

lemma typeof_string_iff: "typeof v = T_string \<longleftrightarrow> (\<exists>s. v = Some (Str s))"
  by (cases v rule: typeof.cases) auto

lemma set_defined_values: "set (defined_values xs) = {v. Some v \<in> set xs}"
  by (induction xs rule: defined_values.induct) auto


lemma card_column_values:
  "card (set (column_values cleaned header)) =
     card (set (defined_values (column_values cleaned header)))
     + (if None \<in> set (column_values cleaned header) then 1 else 0)"
proof -
  let ?xs = "column_values cleaned header"
  have split: "set ?xs - {None} = Some ` set (defined_values ?xs)"
    by (auto simp: set_defined_values image_iff) (metis not_Some_eq)
  have "card (set ?xs - {None}) = card (set (defined_values ?xs))"
    unfolding split by (rule card_image) simp
  moreover have "Suc (card (set ?xs - {None})) = card (set ?xs)" if "None \<in> set ?xs"
    using that by (intro card_Suc_Diff1) simp_all
  ultimately show ?thesis
    by (cases "None \<in> set ?xs") auto
qed

text \<open>
  C6, as amended. A column is offered as a filter exactly when the dataset is non-empty, the
  first record's cell for it is a string, and the number of distinct values of the column
  over the whole dataset, with \<^verbatim>\<open>undefined\<close> counted as one further value when some record
  lacks the column, is more than one and at most 50. In the counterexample the column
  \<^verbatim>\<open>c\<close> has the single value \<^verbatim>\<open>"a"\<close> and is offered, the second record lacking it.
\<close>

theorem categoricalColumns_iff:
  "header \<in> set (categoricalColumns cleaned) \<longleftrightarrow>
     cleaned \<noteq> []
     \<and> (\<exists>s. obj_get (cleaned ! 0) header = Some (Str s))
     \<and> 1 < card (set (defined_values (column_values cleaned header)))
           + (if None \<in> set (column_values cleaned header) then 1 else 0)
     \<and> card (set (defined_values (column_values cleaned header)))
           + (if None \<in> set (column_values cleaned header) then 1 else 0) \<le> 50"
proof -
  have "header \<in> set (categoricalColumns cleaned) \<longleftrightarrow>
     cleaned \<noteq> []
     \<and> (\<exists>s. obj_get (cleaned ! 0) header = Some (Str s))
     \<and> 1 < card (set (column_values cleaned header))
     \<and> card (set (column_values cleaned header)) \<le> 50"
    by (auto simp: categoricalColumns_def Let_def typeof_string_iff length_new_Set
        dest: obj_get_keys)
  then show ?thesis
    unfolding card_column_values [of cleaned header] .
qed

theorem categoricalColumns_iff_witness:
  "''country'' \<in> set (categoricalColumns sales_data)
   \<and> ''units'' \<notin> set (categoricalColumns sales_data)
   \<and> ''c'' \<in> set (categoricalColumns lacking_sorted_data)"
proof -
  have cards: "card (set (defined_values (column_values sales_data ''country''))) = 2"
      "card (set (defined_values (column_values lacking_sorted_data ''c''))) = 2"
    unfolding card_set
    by (simp_all add: column_values_def sales_data_def lacking_sorted_data_def obj_get_def)
  have lacks: "None \<notin> set (column_values sales_data ''country'')"
      "None \<in> set (column_values lacking_sorted_data ''c'')"
    by (simp_all add: column_values_def sales_data_def lacking_sorted_data_def obj_get_def)
  have cells: "obj_get (sales_data ! 0) ''country'' = Some (Str ''US'')"
      "obj_get (sales_data ! 0) ''units'' = Some (Num 5)"
      "obj_get (lacking_sorted_data ! 0) ''c'' = Some (Str ''b'')"
      "sales_data \<noteq> []" "lacking_sorted_data \<noteq> []"
    by (simp_all add: sales_data_def lacking_sorted_data_def obj_get_def)
  from cards lacks cells categoricalColumns_iff [of "''country''" sales_data]
    categoricalColumns_iff [of "''units''" sales_data]
    categoricalColumns_iff [of "''c''" lacking_sorted_data]
  show ?thesis by simp
qed

theorem categoricalColumns_undefined_counterexample:
  "''c'' \<in> set (categoricalColumns lacking_data)
   \<and> set (defined_values (column_values lacking_data ''c'')) = {Str ''a''}
   \<and> card (set (defined_values (column_values lacking_data ''c''))) = 1"
  by (simp add: categoricalColumns_def lacking_data_def Object_keys_def obj_get_def new_Set_def
      Set_add_def column_values_def)

subsection \<open>Value domains\<close>
















section \<open>Properties of pagination\<close>

lemma paginatedData_take_drop:
  assumes "0 \<le> pg"
  shows "paginatedData fd pg = take 10 (drop (10 * nat pg) fd)"
proof (cases "10 * nat pg < length fd")
  case True
  with assms have k: "min (pg * 10) (int (length fd)) = pg * 10" by simp
  show ?thesis
  proof (cases "10 * nat pg + 10 \<le> length fd")
    case True
    with assms have "min ((pg + 1) * 10) (int (length fd)) = pg * 10 + 10" by simp
    with assms k show ?thesis
      by (simp add: paginatedData_def Array_slice_def rowsPerPage_def Let_def nat_mult_distrib
          mult.commute)
  next
    case False
    with assms have "min ((pg + 1) * 10) (int (length fd)) = int (length fd)" by simp
    moreover from assms have "nat (int (length fd) - pg * 10) = length fd - 10 * nat pg"
      by (simp add: nat_diff_distrib nat_mult_distrib)
    moreover from False have "take 10 (drop (10 * nat pg) fd) = drop (10 * nat pg) fd"
      by simp
    ultimately show ?thesis
      using assms k
      by (simp add: paginatedData_def Array_slice_def rowsPerPage_def Let_def nat_mult_distrib
          mult.commute)
  qed
next
  case False
  with assms have "min (pg * 10) (int (length fd)) = int (length fd)"
    "min ((pg + 1) * 10) (int (length fd)) = int (length fd)"
    by simp_all
  with assms False show ?thesis
    by (simp add: paginatedData_def Array_slice_def rowsPerPage_def Let_def)
qed

lemma pageCount_div: "pageCount fd = (int (length fd) + 9) div 10"
proof -
  have "pageCount fd = \<lceil>real_of_int (int (length fd)) / real_of_int 10\<rceil>"
    by (simp add: pageCount_def rowsPerPage_def)
  also have "\<dots> = - (- int (length fd) div 10)"
    by (rule ceiling_divide_eq_div)
  also have "\<dots> = (int (length fd) + 9) div 10"
    by presburger
  finally show ?thesis .
qed

lemma pageCount_ceiling: "pageCount fd = \<lceil>real (length fd) / 10\<rceil>"
  by (simp add: pageCount_def rowsPerPage_def)

lemma page_nonempty_iff:
  assumes "0 \<le> pg"
  shows "paginatedData fd pg \<noteq> [] \<longleftrightarrow> pg < pageCount fd"
proof -
  have "paginatedData fd pg \<noteq> [] \<longleftrightarrow> 10 * nat pg < length fd"
    by (simp add: paginatedData_take_drop [OF assms] linorder_not_le)
  also have "\<dots> \<longleftrightarrow> pg < (int (length fd) + 9) div 10"
    using assms by (auto simp: nat_less_iff) 
  finally show ?thesis by (simp add: pageCount_div)
qed

text \<open>
  C8. With ten rows per page and a page index \<open>pg \<ge> 0\<close>, the displayed page is the rows of
  the filtered view from index \<open>10 * pg\<close> up to, and without, \<open>10 * (pg + 1)\<close>, cut at the end
  of the view: at most ten rows, and none exactly when \<open>pg\<close> is not below the page count.
  The page count is the ceiling of a tenth of the length. Next stops at the page count
  less one and Previous at zero, and neither leaves the non-negative indices while there
  is more than one page. For 25 rows there are 3 pages, page 0 has 10 rows, page 2 has 5,
  and Next on page 2 stays there.
\<close>

theorem pagination:
  "(0 \<le> pg \<longrightarrow>
      paginatedData fd pg = take 10 (drop (10 * nat pg) fd)
      \<and> length (paginatedData fd pg) = min 10 (length fd - 10 * nat pg)
      \<and> (\<forall>i < length (paginatedData fd pg). paginatedData fd pg ! i = fd ! (10 * nat pg + i))
      \<and> (paginatedData fd pg \<noteq> [] \<longleftrightarrow> pg < pageCount fd))
   \<and> pageCount fd = \<lceil>real (length fd) / 10\<rceil>
   \<and> nextPage (pageCount fd) pg = (if pg + 1 \<le> pageCount fd - 1 then pg + 1 else pageCount fd - 1)
   \<and> (0 \<le> pg \<and> 1 < pageCount fd \<longrightarrow> 0 \<le> nextPage (pageCount fd) pg)
   \<and> previousPage pg = (if 0 \<le> pg - 1 then pg - 1 else 0)
   \<and> 0 \<le> previousPage pg
   \<and> (length fd = 25 \<longrightarrow>
        pageCount fd = 3 \<and> length (paginatedData fd 0) = 10 \<and> length (paginatedData fd 2) = 5
        \<and> nextPage (pageCount fd) 2 = 2)"
proof -
  have page: "0 \<le> pg \<longrightarrow>
      paginatedData fd pg = take 10 (drop (10 * nat pg) fd)
      \<and> length (paginatedData fd pg) = min 10 (length fd - 10 * nat pg)
      \<and> (\<forall>i < length (paginatedData fd pg). paginatedData fd pg ! i = fd ! (10 * nat pg + i))
      \<and> (paginatedData fd pg \<noteq> [] \<longleftrightarrow> pg < pageCount fd)"
  proof
    assume pos: "0 \<le> pg"
    have slice: "paginatedData fd pg = take 10 (drop (10 * nat pg) fd)"
      by (rule paginatedData_take_drop [OF pos])
    have len: "length (paginatedData fd pg) = min 10 (length fd - 10 * nat pg)"
      by (simp add: slice min.commute)
    have "\<forall>i < length (paginatedData fd pg). paginatedData fd pg ! i = fd ! (10 * nat pg + i)"
      by (auto simp: slice)
    with slice len page_nonempty_iff [OF pos, of fd]
    show "paginatedData fd pg = take 10 (drop (10 * nat pg) fd)
      \<and> length (paginatedData fd pg) = min 10 (length fd - 10 * nat pg)
      \<and> (\<forall>i < length (paginatedData fd pg). paginatedData fd pg ! i = fd ! (10 * nat pg + i))
      \<and> (paginatedData fd pg \<noteq> [] \<longleftrightarrow> pg < pageCount fd)"
      by blast
  qed
  have nav: "nextPage (pageCount fd) pg =
      (if pg + 1 \<le> pageCount fd - 1 then pg + 1 else pageCount fd - 1)"
    "0 \<le> pg \<and> 1 < pageCount fd \<longrightarrow> 0 \<le> nextPage (pageCount fd) pg"
    "previousPage pg = (if 0 \<le> pg - 1 then pg - 1 else 0)"
    "0 \<le> previousPage pg"
    by (simp_all add: nextPage_def previousPage_def)
  have rows25: "length fd = 25 \<longrightarrow>
        pageCount fd = 3 \<and> length (paginatedData fd 0) = 10 \<and> length (paginatedData fd 2) = 5
        \<and> nextPage (pageCount fd) 2 = 2"
    by (simp add: pageCount_div paginatedData_take_drop nextPage_def)
  from page pageCount_ceiling nav rows25 show ?thesis by blast
qed

theorem pagination_witness:
  "pageCount [0 ..< 25] = 3
   \<and> paginatedData [0 ..< 25] 2 = [20, 21, 22, 23, 24]
   \<and> length (paginatedData [0 ..< 25] 0) = 10
   \<and> nextPage (pageCount [0 ..< 25]) 2 = 2
   \<and> previousPage 0 = 0
   \<and> paginatedData [0 ..< 25] 3 = []"
proof -
  have len: "length [0 ..< 25] = 25" by simp
  have pos: "(0::int) \<le> 2" "(0::int) \<le> 3" by simp_all
  have "take 10 (drop (10 * nat 2) [0 ..< 25]) = [20, 21, 22, 23, 24]"
    by (simp add: upt_rec_numeral)
  moreover have "take 10 (drop (10 * nat 3) [0 ..< 25]) = []"
    by simp
  ultimately show ?thesis
    using pagination [of 2 "[0 ..< 25]"] pagination [of 3 "[0 ..< 25]"]
      pagination [of 0 "[0 ..< 25]"] len pos
    by simp
qed

end
